theory Spec2Isabelle
  imports Main "HOL-Library.Monad_Syntax"
begin

text \<open>
  A model of \<^verbatim>\<open>src/libtsduck/tsxmlNode.cpp\<close>: the base class \<^verbatim>\<open>ts::xml::Node\<close> of the
  nodes of a document tree. The file holds two groups of functions, and the model has
  one layer for each:

  \<^item> the tree operations (constructor, \<^verbatim>\<open>reparent\<close>, \<^verbatim>\<open>nextSibling\<close>, \<^verbatim>\<open>clear\<close>, destructor)
    work on nodes linked by pointers; they are modelled on an explicit store, a map
    from addresses to node cells, and an operation that dereferences an address that
    is not allocated has no result (\<open>None\<close>);

  \<^item> \<^verbatim>\<open>parseContinue\<close> drives a tokenizer and builds the tree; it is modelled on trees as
    values, with the tokenizer and the diagnostics in an explicit parser state.
\<close>

section \<open>The data of a node\<close>

text \<open>
  The dynamic type of a node, as \<^verbatim>\<open>dynamic_cast\<close> observes it in \<^verbatim>\<open>parseContinue\<close>
  (\<^verbatim>\<open>Document\<close>, \<^verbatim>\<open>Declaration\<close>, \<^verbatim>\<open>Element\<close>; every other node is \<^verbatim>\<open>Text\<close> here),
  and the closing type of \<^verbatim>\<open>_closingType\<close>. The source names \<^verbatim>\<open>OPEN\<close> (constructor) and
  \<^verbatim>\<open>CLOSING\<close> (the disabled block of \<^verbatim>\<open>parseContinue\<close>); the self-closed form is the
  third value of the data model.
\<close>

datatype kind = Document | Declaration | Element | Text

datatype closingType = OPEN | SELFCLOSED | CLOSING

text \<open>
  A node cell holds the members of \<^verbatim>\<open>Node\<close> (\<^verbatim>\<open>_value\<close>, \<^verbatim>\<open>_parent\<close>, \<^verbatim>\<open>_firstChild\<close>,
  \<^verbatim>\<open>_inputLineNum\<close>, \<^verbatim>\<open>_closingType\<close>) and the two links of its base class \<^verbatim>\<open>RingNode\<close>.
  A null pointer is \<open>None\<close>. The links of the ring are never null: a node that is
  alone in its ring points to itself.
\<close>

type_synonym addr = nat

record node =
  m_value :: string
  m_parent :: "addr option"
  m_firstChild :: "addr option"
  m_inputLineNum :: nat
  m_closingType :: closingType
  m_ring_next :: addr
  m_ring_previous :: addr

type_synonym heap = "addr \<Rightarrow> node option"

section \<open>The tree operations\<close>

text \<open>
  A write to a member of the node at an address; there is no result when the address
  is not allocated.
\<close>

definition modify :: "addr \<Rightarrow> (node \<Rightarrow> node) \<Rightarrow> heap \<Rightarrow> heap option" where
  "modify a f h = (case h a of None \<Rightarrow> None | Some n \<Rightarrow> Some (h(a \<mapsto> f n)))"

text \<open>
  \<^verbatim>\<open>Node::Node(size_t line)\<close> at a free address: \<^verbatim>\<open>_value()\<close>, \<^verbatim>\<open>_parent(this)\<close>,
  \<^verbatim>\<open>_firstChild(0)\<close>, \<^verbatim>\<open>_inputLineNum(line)\<close>, \<^verbatim>\<open>_closingType(OPEN)\<close>, and
  \<^verbatim>\<open>RingNode()\<close>, which leaves the node alone in its ring. The constructor makes the new
  node its own parent.
\<close>

definition construct :: "nat \<Rightarrow> addr \<Rightarrow> heap \<Rightarrow> heap option" where
  "construct line a h =
     (if h a \<noteq> None then None
      else Some (h(a \<mapsto> \<lparr>m_value = [], m_parent = Some a, m_firstChild = None,
                         m_inputLineNum = line, m_closingType = OPEN,
                         m_ring_next = a, m_ring_previous = a\<rparr>)))"

text \<open>
  Modelled from the spec: the class \<^verbatim>\<open>RingNode\<close> is not in the sources. The siblings
  form a circular doubly linked ring. \<^verbatim>\<open>ringAlone()\<close> tells whether the node is the only
  member of its ring, \<^verbatim>\<open>ringNext()\<close> is the next member, \<^verbatim>\<open>ringRemove()\<close> unlinks the
  node and leaves it alone in a ring of its own, and \<^verbatim>\<open>ringInsertBefore(o)\<close> links the
  node, alone until then, between \<open>o\<close>'s previous member and \<open>o\<close>.
\<close>

definition ringAlone :: "addr \<Rightarrow> heap \<Rightarrow> bool option" where
  "ringAlone this h = map_option (\<lambda>n. m_ring_next n = this) (h this)"

definition ringNext :: "addr \<Rightarrow> heap \<Rightarrow> addr option" where
  "ringNext this h = map_option m_ring_next (h this)"

definition ringRemove :: "addr \<Rightarrow> heap \<Rightarrow> heap option" where
  "ringRemove this h =
     do {
       n \<leftarrow> h this;
       if m_ring_next n \<noteq> this then
         do {
           h1 \<leftarrow> modify (m_ring_next n) (\<lambda>q. q\<lparr>m_ring_previous := m_ring_previous n\<rparr>) h;
           h2 \<leftarrow> modify (m_ring_previous n) (\<lambda>q. q\<lparr>m_ring_next := m_ring_next n\<rparr>) h1;
           modify this (\<lambda>q. q\<lparr>m_ring_next := this, m_ring_previous := this\<rparr>) h2
         }
       else Some h
     }"

definition ringInsertBefore :: "addr \<Rightarrow> addr \<Rightarrow> heap \<Rightarrow> heap option" where
  "ringInsertBefore this anchor h =
     do {
       an \<leftarrow> h anchor;
       h1 \<leftarrow> modify this (\<lambda>q. q\<lparr>m_ring_next := anchor, m_ring_previous := m_ring_previous an\<rparr>) h;
       h2 \<leftarrow> modify (m_ring_previous an) (\<lambda>q. q\<lparr>m_ring_next := this\<rparr>) h1;
       modify anchor (\<lambda>q. q\<lparr>m_ring_previous := this\<rparr>) h2
     }"

text \<open>
  The first half of \<^verbatim>\<open>reparent\<close>, \<^verbatim>\<open>if (_parent != 0) { ... }\<close>: when the node is its
  parent's first child, the parent's \<^verbatim>\<open>_firstChild\<close> moves to the next member of the
  ring, or to null when the node is alone; then the node leaves the ring.
\<close>

definition detach :: "addr \<Rightarrow> heap \<Rightarrow> heap option" where
  "detach this h =
     do {
       n \<leftarrow> h this;
       (case m_parent n of
          None \<Rightarrow> Some h
        | Some par \<Rightarrow>
            do {
              pn \<leftarrow> h par;
              h1 \<leftarrow> (if m_firstChild pn = Some this
                     then do {
                       alone \<leftarrow> ringAlone this h;
                       nx \<leftarrow> ringNext this h;
                       modify par (\<lambda>q. q\<lparr>m_firstChild := (if alone then None else Some nx)\<rparr>) h
                     }
                     else Some h);
              ringRemove this h1
            })
     }"

text \<open>
  The second half of \<^verbatim>\<open>reparent\<close>, after \<^verbatim>\<open>_parent = newParent\<close>: the node becomes the
  only child of a parent with no child, and is inserted in the ring before the first
  child otherwise.
\<close>

definition attach :: "addr \<Rightarrow> heap \<Rightarrow> heap option" where
  "attach this h =
     do {
       n \<leftarrow> h this;
       (case m_parent n of
          None \<Rightarrow> Some h
        | Some par \<Rightarrow>
            do {
              pn \<leftarrow> h par;
              (case m_firstChild pn of
                 None \<Rightarrow> modify par (\<lambda>q. q\<lparr>m_firstChild := Some this\<rparr>) h
               | Some fc \<Rightarrow> ringInsertBefore this fc h)
            })
     }"

text \<open>
  \<^verbatim>\<open>Node::reparent(Node* newParent)\<close>: nothing happens when \<^verbatim>\<open>newParent == _parent\<close>.
\<close>

definition reparent :: "addr \<Rightarrow> addr option \<Rightarrow> heap \<Rightarrow> heap option" where
  "reparent this newParent h =
     do {
       n \<leftarrow> h this;
       if newParent = m_parent n then Some h
       else do {
         h1 \<leftarrow> detach this h;
         h2 \<leftarrow> modify this (\<lambda>q. q\<lparr>m_parent := newParent\<rparr>) h1;
         attach this h2
       }
     }"









section \<open>Parsing: \<^verbatim>\<open>ts::xml::Node::parseContinue\<close>\<close>

text \<open>
  During parsing the tree under construction is threaded through the calls as a value:
  a node with its children in \<^verbatim>\<open>firstChild()\<close>/\<^verbatim>\<open>nextSibling()\<close> order.
\<close>

datatype xnode = XNode
  (nodeKind: kind)
  (nodeValue: string)
  (lineNumber: nat)
  (nodeClosing: closingType)
  (childNodes: "xnode list")

text \<open>
  Modelled from the spec: the class \<^verbatim>\<open>Parser\<close> (\<^verbatim>\<open>identify\<close>, \<^verbatim>\<open>errorAtLine\<close>) is not
  in the sources. \<^verbatim>\<open>identify()\<close> returns the next candidate node or none and advances the
  scan position; \<^verbatim>\<open>errorAtLine\<close> appends one line-tagged entry to the diagnostics and
  never fails. The tokenizer is a parameter: \<open>script\<close> is the list of the answers of the
  successive \<^verbatim>\<open>identify()\<close> calls, and an exhausted script answers none. \<open>deleted\<close>
  records the candidates on which \<^verbatim>\<open>delete node\<close> ran.
\<close>

record pstate =
  script :: "xnode option list"
  errors :: "(nat \<times> string) list"
  deleted :: "xnode list"

definition identify :: "pstate \<Rightarrow> xnode option \<times> pstate" where
  "identify p = (case script p of [] \<Rightarrow> (None, p) | r # rs \<Rightarrow> (r, p\<lparr>script := rs\<rparr>))"

definition errorAtLine :: "nat \<Rightarrow> string \<Rightarrow> pstate \<Rightarrow> pstate" where
  "errorAtLine line msg p = p\<lparr>errors := errors p @ [(line, msg)]\<rparr>"

definition deleteNode :: "xnode \<Rightarrow> pstate \<Rightarrow> pstate" where
  "deleteNode node p = p\<lparr>deleted := deleted p @ [node]\<rparr>"

text \<open>
  \<^verbatim>\<open>node->reparent(this)\<close> for a candidate that is not yet a child of \<^verbatim>\<open>this\<close>: the
  candidate becomes the last child in \<^verbatim>\<open>nextSibling()\<close> order.
\<close>

definition reparentUnder :: "xnode \<Rightarrow> xnode \<Rightarrow> xnode" where
  "reparentUnder node this =
     XNode (nodeKind this) (nodeValue this) (lineNumber this) (nodeClosing this)
       (childNodes this @ [node])"

text \<open>
  The loop \<^verbatim>\<open>for (Node* ch = firstChild(); thisOneOk && ch != 0; ch = ch->nextSibling())\<close>
  over the children already attached to the context.
\<close>

fun precedingLoop :: "xnode list \<Rightarrow> nat \<Rightarrow> bool \<Rightarrow> pstate \<Rightarrow> bool \<times> pstate" where
  "precedingLoop [] line thisOneOk p = (thisOneOk, p)"
| "precedingLoop (ch # chs) line thisOneOk p =
     (if thisOneOk then
        (if nodeKind ch \<noteq> Declaration
         then precedingLoop chs line False
                (errorAtLine line ''misplaced declaration, must be at the beginning of the document'' p)
         else precedingLoop chs line thisOneOk p)
      else (thisOneOk, p))"

text \<open>
  The checks of one loop iteration, from the return of the nested
  \<^verbatim>\<open>node->parseContinue(parser, endToken)\<close> (its result is \<open>nested\<close>) to the value of
  \<^verbatim>\<open>thisOneOk\<close>. The block for elements is empty in the source: its body is commented out.
\<close>

definition checkNode :: "xnode \<Rightarrow> xnode \<Rightarrow> bool \<Rightarrow> pstate \<Rightarrow> bool \<times> pstate" where
  "checkNode this node nested p =
     (if \<not> nested then (False, errorAtLine (lineNumber node) ''parsing error'' p)
      else if nodeKind node = Declaration then
        (let (thisOneOk, p1) =
               (if nodeKind this \<noteq> Document
                then (False, errorAtLine (lineNumber node)
                               ''misplaced declaration, not directly inside a document'' p)
                else (True, p))
         in precedingLoop (childNodes this) (lineNumber node) thisOneOk p1)
      else (True, p))"

text \<open>
  The \<^verbatim>\<open>while\<close> loop of \<^verbatim>\<open>parseContinue\<close>, with the local \<^verbatim>\<open>result\<close> as an argument. The
  call \<^verbatim>\<open>node->parseContinue(parser, endToken)\<close> is virtual; the sources hold this
  implementation only, so every candidate is parsed by it. \<^verbatim>\<open>endToken\<close> is passed on
  and never read or written.
\<close>

function parseLoop :: "xnode \<Rightarrow> string \<Rightarrow> bool \<Rightarrow> pstate \<Rightarrow> bool \<times> xnode \<times> pstate" where
  "parseLoop this endToken result p =
     (case identify p of
        (None, p1) \<Rightarrow> (result, this, p1)
      | (Some node, p1) \<Rightarrow>
          (case parseLoop node endToken True p1 of
             (nested, node', p2) \<Rightarrow>
               (case checkNode this node' nested p2 of
                  (thisOneOk, p3) \<Rightarrow>
                    if thisOneOk
                    then parseLoop (reparentUnder node' this) endToken result p3
                    else parseLoop this endToken False (deleteNode node' p3))))"
  by pat_completeness auto

lemma script_errorAtLine [simp]: "script (errorAtLine l m p) = script p"
  by (simp add: errorAtLine_def)

lemma script_deleteNode [simp]: "script (deleteNode n p) = script p"
  by (simp add: deleteNode_def)

lemma script_precedingLoop [simp]: "script (snd (precedingLoop chs l ok p)) = script p"
  by (induction chs l ok p rule: precedingLoop.induct) auto

lemma script_checkNode [simp]: "script (snd (checkNode this node nested p)) = script p"
  by (simp add: checkNode_def split: prod.splits if_splits)

lemma parseLoop_script_le:
  "parseLoop_dom (this, endToken, result, p) \<Longrightarrow>
     length (script (snd (snd (parseLoop this endToken result p)))) \<le> length (script p)"
proof (induction this endToken result p rule: parseLoop.pinduct)
  case (1 this endToken result p)
  show ?case
  proof (cases "script p")
    case Nil
    with 1(1) show ?thesis by (simp add: parseLoop.psimps identify_def)
  next
    case (Cons r rs)
    show ?thesis
    proof (cases r)
      case None
      with Cons 1(1) show ?thesis by (simp add: parseLoop.psimps identify_def)
    next
      case (Some node)
      let ?p1 = "p\<lparr>script := rs\<rparr>"
      have id: "identify p = (Some node, ?p1)" using Cons Some by (simp add: identify_def)
      obtain nested node' p2 where n: "parseLoop node endToken True ?p1 = (nested, node', p2)"
        by (cases "parseLoop node endToken True ?p1") auto
      obtain ok p3 where c: "checkNode this node' nested p2 = (ok, p3)"
        by (cases "checkNode this node' nested p2") auto
      have l2: "length (script p2) \<le> length rs"
        using 1(2)[OF id[symmetric] refl] n by simp
      have s3: "script p3 = script p2" using script_checkNode[of this node' nested p2] c by simp
      show ?thesis
      proof (cases ok)
        case True
        have "length (script (snd (snd (parseLoop (reparentUnder node' this) endToken result p3))))
                \<le> length (script p3)"
          using 1(3)[OF id[symmetric] refl n[symmetric] refl c[symmetric] True] .
        with 1(1) id n c True l2 s3 Cons show ?thesis by (simp add: parseLoop.psimps)
      next
        case False
        have "length (script (snd (snd (parseLoop this endToken False (deleteNode node' p3)))))
                \<le> length (script (deleteNode node' p3))"
          using 1(4)[OF id[symmetric] refl n[symmetric] refl c[symmetric] False] .
        with 1(1) id n c False l2 s3 Cons show ?thesis by (simp add: parseLoop.psimps)
      qed
    qed
  qed
qed

lemma parseLoop_then_check:
  assumes "parseLoop_dom (node, endToken, True, p)"
    and "(nested, node', p2) = parseLoop node endToken True p"
    and "(ok, p3) = checkNode this node' nested p2"
  shows "length (script p3) \<le> length (script p)"
proof -
  have "script p3 = script p2"
    using script_checkNode[of this node' nested p2] assms(3)[symmetric] by simp
  moreover have "length (script p2) \<le> length (script p)"
    using parseLoop_script_le[OF assms(1)] assms(2)[symmetric] by simp
  ultimately show ?thesis by simp
qed

termination parseLoop
  apply (relation "measure (\<lambda>(this, endToken, result, p). length (script p))")
  apply simp
  apply (auto simp: identify_def split: list.splits dest!: parseLoop_then_check)
  done

declare parseLoop.simps [simp del]

definition parseContinue :: "xnode \<Rightarrow> string \<Rightarrow> pstate \<Rightarrow> bool \<times> xnode \<times> pstate" where
  "parseContinue this endToken p = parseLoop this endToken True p"

section \<open>The vocabulary of the properties\<close>

subsection \<open>Well-formed stores\<close>

text \<open>
  A doubly linked segment: following \<open>nx\<close> from \<open>a\<close> goes through \<open>xs\<close> and arrives at
  \<open>b\<close>, and \<open>pv\<close> goes back.
\<close>

fun links :: "(addr \<Rightarrow> addr) \<Rightarrow> (addr \<Rightarrow> addr) \<Rightarrow> addr \<Rightarrow> addr list \<Rightarrow> addr \<Rightarrow> bool" where
  "links nx pv a [] b = (nx a = b \<and> pv b = a)"
| "links nx pv a (x # xs) b = (nx a = x \<and> pv x = a \<and> links nx pv x xs b)"

text \<open>
  The members of the cell at an allocated address, as functions of the address.
\<close>

definition nxt :: "heap \<Rightarrow> addr \<Rightarrow> addr" where "nxt h a = m_ring_next (the (h a))"

definition prv :: "heap \<Rightarrow> addr \<Rightarrow> addr" where "prv h a = m_ring_previous (the (h a))"

definition par :: "heap \<Rightarrow> addr \<Rightarrow> addr option" where "par h a = m_parent (the (h a))"

definition fstc :: "heap \<Rightarrow> addr \<Rightarrow> addr option" where "fstc h a = m_firstChild (the (h a))"

definition dat :: "heap \<Rightarrow> addr \<Rightarrow> string \<times> nat \<times> closingType" where
  "dat h a = (m_value (the (h a)), m_inputLineNum (the (h a)), m_closingType (the (h a)))"

text \<open>
  The effect of an operation that keeps the allocated addresses and the data of the
  nodes: the four link functions of the new store.
\<close>

definition eff :: "heap \<Rightarrow> heap \<Rightarrow> (addr \<Rightarrow> addr) \<Rightarrow> (addr \<Rightarrow> addr) \<Rightarrow>
    (addr \<Rightarrow> addr option) \<Rightarrow> (addr \<Rightarrow> addr option) \<Rightarrow> bool" where
  "eff h h' nx pv pa fc \<longleftrightarrow>
     dom h' = dom h \<and> nxt h' = nx \<and> prv h' = pv \<and> par h' = pa \<and> fstc h' = fc \<and> dat h' = dat h"

text \<open>
  \<open>kids h p xs\<close>: the nodes of \<open>xs\<close> are distinct children of \<open>p\<close>, \<open>p\<close>'s first child is
  the head of \<open>xs\<close>, and the ring of the head goes through \<open>xs\<close> in this order and back
  to the head. \<open>childSet h p\<close> is the set of the nodes whose parent is \<open>p\<close>; a new
  node, which is its own parent, is no child of itself.
\<close>

definition ringOk :: "heap \<Rightarrow> addr list \<Rightarrow> bool" where
  "ringOk h xs = (case xs of [] \<Rightarrow> True | c # cs \<Rightarrow> links (nxt h) (prv h) c cs c)"

definition kids :: "heap \<Rightarrow> addr \<Rightarrow> addr list \<Rightarrow> bool" where
  "kids h p xs \<longleftrightarrow>
     p \<in> dom h \<and> distinct xs \<and> set xs \<subseteq> dom h \<and> (\<forall>x\<in>set xs. par h x = Some p) \<and>
     fstc h p = (case xs of [] \<Rightarrow> None | c # cs \<Rightarrow> Some c) \<and> ringOk h xs"

definition childSet :: "heap \<Rightarrow> addr \<Rightarrow> addr set" where
  "childSet h p = {x \<in> dom h. par h x = Some p \<and> x \<noteq> p}"



text \<open>
  The head of a list if there is one, and the lists of all the children of a node in
  the order of its ring.
\<close>

definition headOpt :: "addr list \<Rightarrow> addr option" where
  "headOpt xs = (case xs of [] \<Rightarrow> None | c # cs \<Rightarrow> Some c)"

definition kidsAll :: "heap \<Rightarrow> addr \<Rightarrow> addr list \<Rightarrow> bool" where
  "kidsAll h p xs \<longleftrightarrow> kids h p xs \<and> set xs = childSet h p"

text \<open>
  The shape of the subtree under a node: the addresses of the node and of its
  descendants, the children in traversal order.
\<close>

datatype tree = Tree (root: addr) (subtrees: "tree list")



fun shape :: "heap \<Rightarrow> tree \<Rightarrow> bool" where
  "shape h (Tree a ts) = (kidsAll h a (map root ts) \<and> (\<forall>t\<in>set ts. shape h t))"




subsection \<open>The nodes a script yields\<close>

text \<open>
  The reading of a script that the properties about order refer to: the candidates that the
  successive \<^verbatim>\<open>identify()\<close> calls hand to one run of the loop, in the order of the calls,
  each with the candidates handed to its own nested run as its last children, and the
  rest of the script after the answer none that ends the run. No check is involved.
\<close>

definition withChildren :: "xnode \<Rightarrow> xnode list \<Rightarrow> xnode" where
  "withChildren n inner =
     XNode (nodeKind n) (nodeValue n) (lineNumber n) (nodeClosing n) (childNodes n @ inner)"

function yielded :: "xnode option list \<Rightarrow> xnode list \<times> xnode option list" where
  "yielded [] = ([], [])"
| "yielded (None # s) = ([], s)"
| "yielded (Some n # s) =
     (case yielded s of
        (inner, s1) \<Rightarrow> (case yielded s1 of (sibs, s2) \<Rightarrow> (withChildren n inner # sibs, s2)))"
  by pat_completeness auto

lemma yielded_rest_le: "yielded_dom s \<Longrightarrow> length (snd (yielded s)) \<le> length s"
proof (induction s rule: yielded.pinduct)
  case 1
  then show ?case by (simp add: yielded.psimps)
next
  case (2 s)
  then show ?case by (simp add: yielded.psimps)
next
  case (3 n s)
  obtain inner s1 where a: "yielded s = (inner, s1)" by (cases "yielded s") auto
  obtain sibs s2 where b: "yielded s1 = (sibs, s2)" by (cases "yielded s1") auto
  from 3(2) a have "length s1 \<le> length s" by simp
  moreover from 3(3)[OF a[symmetric]] b have "length s2 \<le> length s1" by simp
  ultimately show ?case using 3(1) a b by (simp add: yielded.psimps)
qed

lemma yielded_rest_less:
  "yielded_dom s \<Longrightarrow> (inner, s1) = yielded s \<Longrightarrow> length s1 < Suc (length s)"
  using yielded_rest_le[of s] by (metis le_imp_less_Suc snd_conv)

termination yielded
  apply (relation "measure length")
  apply (auto dest: yielded_rest_less)
  done

text \<open>
  What a parse of the script \<open>s\<close> alone does in the context \<open>this\<close>, from a state
  with no diagnostics: the tree it builds, the entries it reports and the candidates it
  destroys.
\<close>

definition built :: "xnode \<Rightarrow> xnode option list \<Rightarrow> xnode" where
  "built this s = fst (snd (parseContinue this [] \<lparr>script = s, errors = [], deleted = []\<rparr>))"

definition reported :: "xnode \<Rightarrow> xnode option list \<Rightarrow> (nat \<times> string) list" where
  "reported this s =
     errors (snd (snd (parseContinue this [] \<lparr>script = s, errors = [], deleted = []\<rparr>)))"

definition discarded :: "xnode \<Rightarrow> xnode option list \<Rightarrow> xnode list" where
  "discarded this s =
     deleted (snd (snd (parseContinue this [] \<lparr>script = s, errors = [], deleted = []\<rparr>)))"

subsection \<open>Example stores and inputs\<close>

text \<open>
  A new node, and stores with four nodes at the addresses 10 to 13: all of them new;
  node 11 attached to node 10; nodes 11 and 12 attached to node 10 in this order; node
  11 attached to node 10 and node 12 to node 11; the same with node 13 attached to node
  10 as well; and the store with the children 11 and 12 of node 10 after node 10 is
  attached to its child 11.
\<close>

definition fresh :: "nat \<Rightarrow> addr \<Rightarrow> node" where
  "fresh line a = \<lparr>m_value = [], m_parent = Some a, m_firstChild = None, m_inputLineNum = line,
     m_closingType = OPEN, m_ring_next = a, m_ring_previous = a\<rparr>"

definition fourNodes :: heap where
  "fourNodes = [10 \<mapsto> fresh 1 10, 11 \<mapsto> fresh 1 11, 12 \<mapsto> fresh 2 12, 13 \<mapsto> fresh 3 13]"


definition twoChildren :: heap where
  "twoChildren = [10 \<mapsto> (fresh 1 10)\<lparr>m_firstChild := Some 11\<rparr>,
     11 \<mapsto> (fresh 1 11)\<lparr>m_parent := Some 10, m_ring_next := 12, m_ring_previous := 12\<rparr>,
     12 \<mapsto> (fresh 2 12)\<lparr>m_parent := Some 10, m_ring_next := 11, m_ring_previous := 11\<rparr>,
     13 \<mapsto> fresh 3 13]"




text \<open>
  The empty document (\<^verbatim>\<open>Document() : Node(1)\<close>) and a few candidates of a tokenizer:
  two declarations, the opening tags of \<open>a\<close> and \<open>b\<close> and the closing tags of \<open>b\<close>,
  \<open>c\<close>, \<open>a\<close> and \<open>d\<close>. \<open>start s\<close> is the parser state before the script \<open>s\<close>, with no
  diagnostics.
\<close>

definition emptyDocument :: xnode where
  "emptyDocument = XNode Document [] 1 OPEN []"

definition declXml :: xnode where
  "declXml = XNode Declaration ''xml'' 1 OPEN []"

definition declStyle :: xnode where
  "declStyle = XNode Declaration ''xml-stylesheet'' 2 OPEN []"

definition openA :: xnode where
  "openA = XNode Element ''a'' 1 OPEN []"

definition openB :: xnode where
  "openB = XNode Element ''b'' 1 OPEN []"

definition closeB :: xnode where
  "closeB = XNode Element ''b'' 1 CLOSING []"

definition closeC :: xnode where
  "closeC = XNode Element ''c'' 1 CLOSING []"

definition closeA :: xnode where
  "closeA = XNode Element ''a'' 1 CLOSING []"

definition closeD :: xnode where
  "closeD = XNode Element ''d'' 1 CLOSING []"

definition start :: "xnode option list \<Rightarrow> pstate" where
  "start s = \<lparr>script = s, errors = [], deleted = []\<rparr>"

section \<open>Facts about the tree operations\<close>

subsection \<open>Doubly linked segments\<close>





lemma links_last_nx: "links nx pv a xs b \<Longrightarrow> nx (last (a # xs)) = b"
  by (induction xs arbitrary: a) auto







subsection \<open>The effect of the ring operations\<close>


lemma acc_upd [simp]:
  "nxt (h(a \<mapsto> n)) = (nxt h)(a := m_ring_next n)"
  "prv (h(a \<mapsto> n)) = (prv h)(a := m_ring_previous n)"
  "par (h(a \<mapsto> n)) = (par h)(a := m_parent n)"
  "fstc (h(a \<mapsto> n)) = (fstc h)(a := m_firstChild n)"
  "dat (h(a \<mapsto> n)) = (dat h)(a := (m_value n, m_inputLineNum n, m_closingType n))"
  by (auto simp: nxt_def prv_def par_def fstc_def dat_def fun_eq_iff)







lemma eff_trans:
  "eff h h1 nx pv pa fc \<Longrightarrow> eff h1 h2 nx' pv' pa' fc' \<Longrightarrow> eff h h2 nx' pv' pa' fc'"
  by (auto simp: eff_def)



subsection \<open>Rings of children\<close>







subsection \<open>Detaching an attached node\<close>


lemma kids_fstc: "kids h p xs \<Longrightarrow> fstc h p = headOpt xs"
  by (simp add: kids_def headOpt_def)


subsection \<open>Attaching a detached node\<close>







subsection \<open>Detaching keeps the other rings\<close>

lemma childSet_dom: "x \<in> childSet h p \<Longrightarrow> x \<in> dom h \<and> par h x = Some p \<and> x \<noteq> p"
  by (simp add: childSet_def)



subsection \<open>Reparenting to a node\<close>



subsection \<open>Reparenting to null, and the constructor\<close>





subsection \<open>Traversal\<close>



subsection \<open>Subtrees\<close>









subsection \<open>Destroying a cleared child\<close>





subsection \<open>Clearing a subtree\<close>












subsection \<open>The parent field after reparent\<close>

lemma modify_parentOf:
  assumes "modify a f h = Some h'" "\<And>q. m_parent (f q) = m_parent q"
  shows "map_option m_parent (h' x) = map_option m_parent (h x)"
  using assms by (auto simp: modify_def split: option.splits)

lemma ringInsertBefore_parentOf:
  assumes "ringInsertBefore n c h = Some h'"
  shows "map_option m_parent (h' x) = map_option m_parent (h x)"
  using assms
  by (auto simp: ringInsertBefore_def modify_def split: bind_splits option.splits if_splits)

lemma attach_parentOf:
  assumes "attach n h = Some h'"
  shows "map_option m_parent (h' x) = map_option m_parent (h x)"
proof -
  from assms obtain nn where nn: "h n = Some nn" by (auto simp: attach_def split: bind_splits)
  show ?thesis
  proof (cases "m_parent nn")
    case None
    with assms nn show ?thesis by (simp add: attach_def)
  next
    case (Some p)
    with assms nn obtain pn where pn: "h p = Some pn"
      by (auto simp: attach_def split: bind_splits)
    show ?thesis
    proof (cases "m_firstChild pn")
      case None
      with assms nn Some pn have "modify p (\<lambda>q. q\<lparr>m_firstChild := Some n\<rparr>) h = Some h'"
        by (simp add: attach_def)
      from modify_parentOf[OF this, of x] show ?thesis by simp
    next
      case (Some fc)
      with assms nn \<open>m_parent nn = Some p\<close> pn have "ringInsertBefore n fc h = Some h'"
        by (simp add: attach_def)
      from ringInsertBefore_parentOf[OF this] show ?thesis .
    qed
  qed
qed

lemma reparent_sets_parent:
  assumes "reparent n p h = Some h'"
  shows "map_option m_parent (h' n) = Some p"
proof -
  from assms obtain nn where nn: "h n = Some nn" by (auto simp: reparent_def split: bind_splits)
  show ?thesis
  proof (cases "p = m_parent nn")
    case True
    with assms nn show ?thesis by (simp add: reparent_def)
  next
    case False
    with assms nn obtain h1 h2 where
      "modify n (\<lambda>q. q\<lparr>m_parent := p\<rparr>) h1 = Some h2" and a: "attach n h2 = Some h'"
      by (auto simp: reparent_def split: bind_splits)
    then have "map_option m_parent (h2 n) = Some p"
      by (auto simp: modify_def split: option.splits)
    with attach_parentOf[OF a, of n] show ?thesis by simp
  qed
qed

lemma reparent_same:
  assumes "map_option m_parent (h n) = Some p"
  shows "reparent n p h = Some h"
  using assms by (auto simp: reparent_def)

subsection \<open>Appending children\<close>




subsection \<open>The destructor and the states of a program\<close>



subsection \<open>The example stores\<close>

lemmas op_defs = construct_def reparent_def detach_def attach_def modify_def ringRemove_def
  ringInsertBefore_def ringAlone_def ringNext_def fresh_def

lemma build_fourNodes:
  "(construct 1 10 Map.empty \<bind> construct 1 11 \<bind> construct 2 12 \<bind> construct 3 13) = Some fourNodes"
  by (simp add: op_defs fourNodes_def)






lemma shape_twoChildren: "shape twoChildren (Tree 10 [Tree 11 [], Tree 12 []])"
  by (auto simp: kidsAll_def kids_def ringOk_def childSet_def twoChildren_def fresh_def
      par_def fstc_def nxt_def prv_def split: if_splits)






subsection \<open>A tree and a cycle\<close>














section \<open>Facts about the parse loop\<close>

lemma parseLoop_end:
  "identify p = (None, p1) \<Longrightarrow> parseLoop this endToken result p = (result, this, p1)"
  by (subst parseLoop.simps) simp

lemma parseLoop_step:
  "identify p = (Some node, p1) \<Longrightarrow>
   parseLoop node endToken True p1 = (nested, node', p2) \<Longrightarrow>
   checkNode this node' nested p2 = (thisOneOk, p3) \<Longrightarrow>
   parseLoop this endToken result p =
     (if thisOneOk then parseLoop (reparentUnder node' this) endToken result p3
      else parseLoop this endToken False (deleteNode node' p3))"
  by (subst parseLoop.simps) simp

lemma precedingLoop_False: "precedingLoop chs line False p = (False, p)"
  by (cases chs) auto

lemma precedingLoop_True:
  "precedingLoop chs line True p =
     (if list_all (\<lambda>ch. nodeKind ch = Declaration) chs then (True, p)
      else (False, errorAtLine line
              ''misplaced declaration, must be at the beginning of the document'' p))"
  by (induction chs) (auto simp: precedingLoop_False)

lemma checkNode_eq:
  "checkNode this node nested p =
     (if \<not> nested then (False, errorAtLine (lineNumber node) ''parsing error'' p)
      else if nodeKind node \<noteq> Declaration then (True, p)
      else if nodeKind this \<noteq> Document
        then (False, errorAtLine (lineNumber node)
                ''misplaced declaration, not directly inside a document'' p)
      else if list_all (\<lambda>ch. nodeKind ch = Declaration) (childNodes this) then (True, p)
      else (False, errorAtLine (lineNumber node)
              ''misplaced declaration, must be at the beginning of the document'' p))"
  by (simp add: checkNode_def precedingLoop_False precedingLoop_True)

lemma checkNode_cases:
  assumes "checkNode this node nested p = (thisOneOk, p3)"
  shows "(thisOneOk \<and> p3 = p) \<or> (\<not> thisOneOk \<and> (\<exists>m. p3 = errorAtLine (lineNumber node) m p))"
  using assms by (auto simp: checkNode_eq split: if_splits)

lemma parseLoop_errors:
  "parseLoop this endToken result p = (ok, this', p') \<Longrightarrow>
     \<exists>new. errors p' = errors p @ new \<and> (ok \<longleftrightarrow> result \<and> new = [])"
proof (induction this endToken result p arbitrary: ok this' p' rule: parseLoop.induct)
  case (1 this endToken result p)
  obtain r p1 where id: "identify p = (r, p1)" by (cases "identify p") auto
  have e1: "errors p1 = errors p"
    using id by (auto simp: identify_def split: list.splits)
  show ?case
  proof (cases r)
    case None
    with id 1(4) e1 show ?thesis by (simp add: parseLoop_end)
  next
    case (Some node)
    with id have id': "identify p = (Some node, p1)" by simp
    obtain nested node' p2 where n: "parseLoop node endToken True p1 = (nested, node', p2)"
      by (cases "parseLoop node endToken True p1") auto
    obtain thisOneOk p3 where c: "checkNode this node' nested p2 = (thisOneOk, p3)"
      by (cases "checkNode this node' nested p2") auto
    from 1(1)[OF id'[symmetric] refl n] obtain new1
      where e2: "errors p2 = errors p1 @ new1" by blast
    show ?thesis
    proof (cases thisOneOk)
      case True
      with checkNode_cases[OF c] have p3: "p3 = p2" by auto
      from True c n have nn: "nested" by (auto simp: checkNode_eq split: if_splits)
      with 1(1)[OF id'[symmetric] refl n] e2 have "new1 = []" by auto
      moreover have "parseLoop (reparentUnder node' this) endToken result p3 = (ok, this', p')"
        using 1(4) parseLoop_step[OF id' n c] True by simp
      from 1(2)[OF id'[symmetric] refl n[symmetric] refl c[symmetric] True this]
      obtain new where "errors p' = errors p3 @ new" "ok \<longleftrightarrow> result \<and> new = []" by blast
      ultimately show ?thesis using e1 e2 p3 by auto
    next
      case False
      with checkNode_cases[OF c] obtain m where p3: "p3 = errorAtLine (lineNumber node') m p2"
        by auto
      have "parseLoop this endToken False (deleteNode node' p3) = (ok, this', p')"
        using 1(4) parseLoop_step[OF id' n c] False by simp
      from 1(3)[OF id'[symmetric] refl n[symmetric] refl c[symmetric] False this]
      obtain new where "errors p' = errors (deleteNode node' p3) @ new" "\<not> ok" by blast
      then show ?thesis using e1 e2 p3 by (auto simp: errorAtLine_def deleteNode_def)
    qed
  qed
qed

lemmas example_defs =
  emptyDocument_def declXml_def declStyle_def openA_def openB_def closeB_def closeC_def
  closeA_def closeD_def start_def

lemmas run_defs =
  parseContinue_def parseLoop.simps identify_def checkNode_eq errorAtLine_def deleteNode_def
  reparentUnder_def

lemma withChildren_Nil [simp]: "withChildren n [] = n"
  by (cases n) (simp add: withChildren_def)


lemma parseLoop_False_fails: "\<not> fst (parseLoop this endToken False p)"
proof -
  obtain ok this' p' where r: "parseLoop this endToken False p = (ok, this', p')"
    by (cases "parseLoop this endToken False p") auto
  from parseLoop_errors[OF r] show ?thesis by (simp add: r)
qed


lemma parseLoop_tally:
  "parseLoop this endToken result p = (ok, this', p') \<Longrightarrow>
     \<exists>new dels. errors p' = errors p @ new \<and> deleted p' = deleted p @ dels \<and>
        map fst new = map lineNumber dels"
proof (induction this endToken result p arbitrary: ok this' p' rule: parseLoop.induct)
  case (1 this endToken result p)
  obtain r p1 where id: "identify p = (r, p1)" by (cases "identify p") auto
  have e1: "errors p1 = errors p" "deleted p1 = deleted p"
    using id by (auto simp: identify_def split: list.splits)
  show ?case
  proof (cases r)
    case None
    with id 1(4) e1 show ?thesis by (simp add: parseLoop_end)
  next
    case (Some node)
    with id have id': "identify p = (Some node, p1)" by simp
    obtain nested node' p2 where n: "parseLoop node endToken True p1 = (nested, node', p2)"
      by (cases "parseLoop node endToken True p1") auto
    obtain thisOneOk p3 where c: "checkNode this node' nested p2 = (thisOneOk, p3)"
      by (cases "checkNode this node' nested p2") auto
    from 1(1)[OF id'[symmetric] refl n] obtain new1 dels1
      where e2: "errors p2 = errors p1 @ new1" "deleted p2 = deleted p1 @ dels1"
        "map fst new1 = map lineNumber dels1" by blast
    show ?thesis
    proof (cases thisOneOk)
      case True
      with checkNode_cases[OF c] have p3: "p3 = p2" by auto
      have "parseLoop (reparentUnder node' this) endToken result p3 = (ok, this', p')"
        using 1(4) parseLoop_step[OF id' n c] True by simp
      from 1(2)[OF id'[symmetric] refl n[symmetric] refl c[symmetric] True this]
      obtain new dels where "errors p' = errors p3 @ new" "deleted p' = deleted p3 @ dels"
        "map fst new = map lineNumber dels" by blast
      then show ?thesis using e1 e2 p3 by auto
    next
      case False
      with checkNode_cases[OF c] obtain m where p3: "p3 = errorAtLine (lineNumber node') m p2"
        by auto
      have "parseLoop this endToken False (deleteNode node' p3) = (ok, this', p')"
        using 1(4) parseLoop_step[OF id' n c] False by simp
      from 1(3)[OF id'[symmetric] refl n[symmetric] refl c[symmetric] False this]
      obtain new dels where "errors p' = errors (deleteNode node' p3) @ new"
        "deleted p' = deleted (deleteNode node' p3) @ dels"
        "map fst new = map lineNumber dels" by blast
      then have "errors p' = errors p @ (new1 @ (lineNumber node', m) # new)"
        "deleted p' = deleted p @ (dels1 @ node' # dels)"
        "map fst (new1 @ (lineNumber node', m) # new) = map lineNumber (dels1 @ node' # dels)"
        using e1 e2 p3 by (auto simp: errorAtLine_def deleteNode_def)
      then show ?thesis by blast
    qed
  qed
qed

lemma parseLoop_flag:
  "\<forall>r. parseLoop this endToken r p =
     (r \<and> fst (parseLoop this endToken True p), snd (parseLoop this endToken True p))"
proof (induct this endToken "result::bool" p rule: parseLoop.induct)
  case (1 this endToken result p)
  obtain r p1 where id: "identify p = (r, p1)" by (cases "identify p") auto
  show ?case
  proof (cases r)
    case None
    with id show ?thesis by (simp add: parseLoop_end)
  next
    case (Some node)
    with id have id': "identify p = (Some node, p1)" by simp
    obtain nested node' p2 where n: "parseLoop node endToken True p1 = (nested, node', p2)"
      by (cases "parseLoop node endToken True p1") auto
    obtain thisOneOk p3 where c: "checkNode this node' nested p2 = (thisOneOk, p3)"
      by (cases "checkNode this node' nested p2") auto
    show ?thesis
    proof (cases thisOneOk)
      case True
      let ?X = "reparentUnder node' this"
      have st: "parseLoop this endToken r' p = parseLoop ?X endToken r' p3" for r'
        using parseLoop_step[OF id' n c, of r'] True by simp
      have ih: "parseLoop ?X endToken r' p3 =
          (r' \<and> fst (parseLoop ?X endToken True p3), snd (parseLoop ?X endToken True p3))" for r'
        using 1(2)[OF id'[symmetric] refl n[symmetric] refl c[symmetric] True] by blast
      show ?thesis
      proof
        fix r'
        show "parseLoop this endToken r' p =
          (r' \<and> fst (parseLoop this endToken True p), snd (parseLoop this endToken True p))"
          unfolding st by (rule ih)
      qed
    next
      case False
      let ?q = "deleteNode node' p3"
      have st: "parseLoop this endToken r' p = parseLoop this endToken False ?q" for r'
        using parseLoop_step[OF id' n c, of r'] False by simp
      have nf: "\<not> fst (parseLoop this endToken False ?q)"
        by (rule parseLoop_False_fails)
      show ?thesis
      proof
        fix r'
        show "parseLoop this endToken r' p =
          (r' \<and> fst (parseLoop this endToken True p), snd (parseLoop this endToken True p))"
          unfolding st using nf by (cases "parseLoop this endToken False ?q") simp
      qed
    qed
  qed
qed

lemma parseLoop_keeps:
  "parseLoop this endToken result p = (ok, this', p') \<Longrightarrow>
     nodeKind this' = nodeKind this \<and> lineNumber this' = lineNumber this \<and>
     nodeValue this' = nodeValue this \<and> nodeClosing this' = nodeClosing this"
proof (induction this endToken result p arbitrary: ok this' p' rule: parseLoop.induct)
  case (1 this endToken result p)
  obtain r p1 where id: "identify p = (r, p1)" by (cases "identify p") auto
  show ?case
  proof (cases r)
    case None
    with id 1(4) show ?thesis by (simp add: parseLoop_end)
  next
    case (Some node)
    with id have id': "identify p = (Some node, p1)" by simp
    obtain nested node' p2 where n: "parseLoop node endToken True p1 = (nested, node', p2)"
      by (cases "parseLoop node endToken True p1") auto
    obtain thisOneOk p3 where c: "checkNode this node' nested p2 = (thisOneOk, p3)"
      by (cases "checkNode this node' nested p2") auto
    show ?thesis
    proof (cases thisOneOk)
      case True
      have "parseLoop (reparentUnder node' this) endToken result p3 = (ok, this', p')"
        using 1(4) parseLoop_step[OF id' n c] True by simp
      from 1(2)[OF id'[symmetric] refl n[symmetric] refl c[symmetric] True this]
      show ?thesis by (simp add: reparentUnder_def)
    next
      case False
      have "parseLoop this endToken False (deleteNode node' p3) = (ok, this', p')"
        using 1(4) parseLoop_step[OF id' n c] False by simp
      from 1(3)[OF id'[symmetric] refl n[symmetric] refl c[symmetric] False this]
      show ?thesis .
    qed
  qed
qed

lemma checkNode_frame:
  "checkNode this n nested p = (b, p3) \<Longrightarrow>
     \<exists>delta. p3 = p\<lparr>errors := errors p @ delta\<rparr> \<and>
       (\<forall>q. checkNode this n nested q = (b, q\<lparr>errors := errors q @ delta\<rparr>))"
proof (cases b)
  case True
  assume "checkNode this n nested p = (b, p3)"
  with True have "p3 = p\<lparr>errors := errors p @ []\<rparr> \<and>
       (\<forall>q. checkNode this n nested q = (b, q\<lparr>errors := errors q @ []\<rparr>))"
    by (auto simp: checkNode_eq errorAtLine_def split: if_splits)
  then show ?thesis by blast
next
  case False
  assume "checkNode this n nested p = (b, p3)"
  with False show ?thesis
    by (auto simp: checkNode_eq errorAtLine_def split: if_splits)
qed

lemma parseLoop_frame:
  "parseLoop this endToken result p = (ok, this', p') \<Longrightarrow>
     \<exists>new dels. errors p' = errors p @ new \<and> deleted p' = deleted p @ dels \<and>
       (\<forall>e E D. parseLoop this e result \<lparr>script = script p, errors = E, deleted = D\<rparr> =
          (ok, this', \<lparr>script = script p', errors = E @ new, deleted = D @ dels\<rparr>))"
proof (induction this endToken result p arbitrary: ok this' p' rule: parseLoop.induct)
  case (1 this endToken result p)
  obtain r p1 where id: "identify p = (r, p1)" by (cases "identify p") auto
  have e1: "errors p1 = errors p" "deleted p1 = deleted p"
    using id by (auto simp: identify_def split: list.splits)
  have idq: "identify \<lparr>script = script p, errors = E, deleted = D\<rparr> =
      (r, \<lparr>script = script p1, errors = E, deleted = D\<rparr>)" for E D
    using id by (auto simp: identify_def split: list.splits)
  show ?case
  proof (cases r)
    case None
    have "parseLoop this e result \<lparr>script = script p, errors = E, deleted = D\<rparr> =
        (result, this, \<lparr>script = script p1, errors = E, deleted = D\<rparr>)" for e E D
      using parseLoop_end[OF idq[unfolded None]] .
    moreover have "ok = result" "this' = this" "p' = p1"
      using id None 1(4) by (simp_all add: parseLoop_end)
    ultimately have "errors p' = errors p @ [] \<and> deleted p' = deleted p @ [] \<and>
       (\<forall>e E D. parseLoop this e result \<lparr>script = script p, errors = E, deleted = D\<rparr> =
          (ok, this', \<lparr>script = script p', errors = E @ [], deleted = D @ []\<rparr>))"
      using e1 by simp
    then show ?thesis by blast
  next
    case (Some node)
    with id have id': "identify p = (Some node, p1)" by simp
    note idq' = idq[unfolded Some]
    obtain nested node' p2 where n: "parseLoop node endToken True p1 = (nested, node', p2)"
      by (cases "parseLoop node endToken True p1") auto
    obtain thisOneOk p3 where c: "checkNode this node' nested p2 = (thisOneOk, p3)"
      by (cases "checkNode this node' nested p2") auto
    from 1(1)[OF id'[symmetric] refl n] obtain new1 dels1
      where e2: "errors p2 = errors p1 @ new1" "deleted p2 = deleted p1 @ dels1"
        and f2: "\<And>e E D. parseLoop node e True \<lparr>script = script p1, errors = E, deleted = D\<rparr> =
          (nested, node', \<lparr>script = script p2, errors = E @ new1, deleted = D @ dels1\<rparr>)"
      by blast
    from checkNode_frame[OF c] obtain delta where p3: "p3 = p2\<lparr>errors := errors p2 @ delta\<rparr>"
      and f3: "\<And>q. checkNode this node' nested q = (thisOneOk, q\<lparr>errors := errors q @ delta\<rparr>)"
      by blast
    have cq: "checkNode this node' nested \<lparr>script = script p2, errors = E @ new1, deleted = D @ dels1\<rparr> =
        (thisOneOk, \<lparr>script = script p3, errors = E @ new1 @ delta, deleted = D @ dels1\<rparr>)" for E D
      using f3[of "\<lparr>script = script p2, errors = E @ new1, deleted = D @ dels1\<rparr>"] p3 by simp
    show ?thesis
    proof (cases thisOneOk)
      case True
      have "parseLoop (reparentUnder node' this) endToken result p3 = (ok, this', p')"
        using 1(4) parseLoop_step[OF id' n c] True by simp
      from 1(2)[OF id'[symmetric] refl n[symmetric] refl c[symmetric] True this]
      obtain new dels where e4: "errors p' = errors p3 @ new" "deleted p' = deleted p3 @ dels"
        and f4: "\<And>e E D. parseLoop (reparentUnder node' this) e result
            \<lparr>script = script p3, errors = E, deleted = D\<rparr> =
          (ok, this', \<lparr>script = script p', errors = E @ new, deleted = D @ dels\<rparr>)"
        by blast
      have "parseLoop this e result \<lparr>script = script p, errors = E, deleted = D\<rparr> =
          (ok, this', \<lparr>script = script p', errors = E @ (new1 @ delta @ new),
             deleted = D @ (dels1 @ dels)\<rparr>)" for e E D
        using parseLoop_step[OF idq'[of E D] f2[of e E D] cq[of E D], of result] True
          f4[of e "E @ new1 @ delta" "D @ dels1"] by simp
      moreover have "errors p' = errors p @ (new1 @ delta @ new)"
        "deleted p' = deleted p @ (dels1 @ dels)"
        using e1 e2 e4 p3 by simp_all
      ultimately show ?thesis by blast
    next
      case False
      have "parseLoop this endToken False (deleteNode node' p3) = (ok, this', p')"
        using 1(4) parseLoop_step[OF id' n c] False by simp
      from 1(3)[OF id'[symmetric] refl n[symmetric] refl c[symmetric] False this]
      obtain new dels where e4: "errors p' = errors (deleteNode node' p3) @ new"
          "deleted p' = deleted (deleteNode node' p3) @ dels"
        and f4: "\<And>e E D. parseLoop this e False
            \<lparr>script = script (deleteNode node' p3), errors = E, deleted = D\<rparr> =
          (ok, this', \<lparr>script = script p', errors = E @ new, deleted = D @ dels\<rparr>)"
        by blast
      have dq: "deleteNode node' \<lparr>script = script p3, errors = E @ new1 @ delta, deleted = D @ dels1\<rparr> =
          \<lparr>script = script (deleteNode node' p3), errors = E @ new1 @ delta,
            deleted = D @ dels1 @ [node']\<rparr>" for E D
        by (simp add: deleteNode_def)
      have "parseLoop this e result \<lparr>script = script p, errors = E, deleted = D\<rparr> =
          (ok, this', \<lparr>script = script p', errors = E @ (new1 @ delta @ new),
             deleted = D @ (dels1 @ node' # dels)\<rparr>)" for e E D
        using parseLoop_step[OF idq'[of E D] f2[of e E D] cq[of E D], of result] False dq[of E D]
          f4[of e "E @ new1 @ delta" "D @ dels1 @ [node']"] by simp
      moreover have "errors p' = errors p @ (new1 @ delta @ new)"
        "deleted p' = deleted p @ (dels1 @ node' # dels)"
        using e1 e2 e4 p3 by (simp_all add: deleteNode_def)
      ultimately show ?thesis by blast
    qed
  qed
qed

lemma parseLoop_consumes:
  "script (snd (snd (parseLoop this endToken result p))) = snd (yielded (script p))"
proof (induction this endToken result p rule: parseLoop.induct)
  case (1 this endToken result p)
  obtain r p1 where id: "identify p = (r, p1)" by (cases "identify p") auto
  show ?case
  proof (cases r)
    case None
    with id show ?thesis
      by (auto simp: parseLoop_end identify_def split: list.splits)
  next
    case (Some node)
    with id have id': "identify p = (Some node, p1)" by simp
    then have sp: "script p = Some node # script p1"
      by (auto simp: identify_def split: list.splits)
    obtain nested node' p2 where n: "parseLoop node endToken True p1 = (nested, node', p2)"
      by (cases "parseLoop node endToken True p1") auto
    obtain thisOneOk p3 where c: "checkNode this node' nested p2 = (thisOneOk, p3)"
      by (cases "checkNode this node' nested p2") auto
    have s3: "script p3 = script p2" using script_checkNode[of this node' nested p2] c by simp
    from 1(1)[OF id'[symmetric] refl] n have s2: "script p2 = snd (yielded (script p1))" by simp
    have y: "snd (yielded (script p)) = snd (yielded (snd (yielded (script p1))))"
      unfolding sp by (simp split: prod.splits)
    show ?thesis
    proof (cases thisOneOk)
      case True
      from 1(2)[OF id'[symmetric] refl n[symmetric] refl c[symmetric] True]
      show ?thesis using parseLoop_step[OF id' n c, of result] True s3 s2 y by simp
    next
      case False
      from 1(3)[OF id'[symmetric] refl n[symmetric] refl c[symmetric] False]
      show ?thesis using parseLoop_step[OF id' n c, of result] False s3 s2 y by simp
    qed
  qed
qed

lemma parseLoop_from:
  "parseLoop this endToken result \<lparr>script = s, errors = E, deleted = D\<rparr> =
     (result \<and> reported this s = [], built this s,
      \<lparr>script = snd (yielded s), errors = E @ reported this s, deleted = D @ discarded this s\<rparr>)"
proof -
  let ?p0 = "\<lparr>script = s, errors = [], deleted = []\<rparr>"
  obtain ok t q where r: "parseLoop this [] True ?p0 = (ok, t, q)"
    by (cases "parseLoop this [] True ?p0") auto
  from parseLoop_frame[OF r] obtain new dels where e: "errors q = new" "deleted q = dels"
    and f: "\<And>e E D. parseLoop this e True \<lparr>script = s, errors = E, deleted = D\<rparr> =
          (ok, t, \<lparr>script = script q, errors = E @ new, deleted = D @ dels\<rparr>)"
    by auto
  have rep: "reported this s = new" "discarded this s = dels" "built this s = t"
    using r e by (simp_all add: reported_def discarded_def built_def parseContinue_def)
  have sq: "script q = snd (yielded s)" using parseLoop_consumes[of this "[]" True ?p0] r by simp
  have ok: "ok \<longleftrightarrow> new = []" using parseLoop_errors[OF r] e by simp
  from parseLoop_flag[of this endToken "\<lparr>script = s, errors = E, deleted = D\<rparr>"]
  have "parseLoop this endToken result \<lparr>script = s, errors = E, deleted = D\<rparr> =
      (result \<and> ok, t, \<lparr>script = script q, errors = E @ new, deleted = D @ dels\<rparr>)"
    using f[of endToken E D] by simp
  then show ?thesis using rep sq ok by simp
qed

lemma reported_discarded: "map fst (reported this s) = map lineNumber (discarded this s)"
proof -
  let ?p0 = "\<lparr>script = s, errors = [], deleted = []\<rparr>"
  obtain ok t q where r: "parseLoop this [] True ?p0 = (ok, t, q)"
    by (cases "parseLoop this [] True ?p0") auto
  from parseLoop_tally[OF r] show ?thesis
    using r by (simp add: reported_def discarded_def parseContinue_def)
qed

section \<open>The properties of the specification\<close>

subsection \<open>Closing tags\<close>

text \<open>
  C1 (the code departs from the specification). The specification has every closing tag
  matched against the name of the open element and discarded, and a mismatched closing
  tag reported as an error that fails the parse. In \<^verbatim>\<open>parseContinue\<close> the block for
  elements is empty (its body is commented out) and \<^verbatim>\<open>endToken\<close> is never read. On the
  candidates of \<^verbatim>\<open><a><b></c></a>\<close> (\<open>a\<close> and \<open>b\<close> opening, \<open>c\<close> and \<open>a\<close> closing) the
  parse returns true and reports nothing, and the closing candidates \<open>c\<close> and \<open>a\<close> stay
  in the tree as nodes.
\<close>

theorem mismatched_closing_tag_is_attached:
  "parseContinue emptyDocument [] (start [Some openA, Some openB, Some closeC, Some closeA]) =
     (True,
      XNode Document [] 1 OPEN
        [XNode Element ''a'' 1 OPEN
          [XNode Element ''b'' 1 OPEN
            [XNode Element ''c'' 1 CLOSING [XNode Element ''a'' 1 CLOSING []]]]],
      start [])"
  by (simp add: run_defs example_defs)

subsection \<open>Declarations\<close>

text \<open>
  C2 (amended). A Declaration candidate whose own nested parse succeeded is attached if
  and only if the context is a Document and every child already attached to the
  context is a Declaration. In every other case one line-tagged entry is reported, the
  candidate is destroyed and not attached, the loop goes on with the result false, and
  the call returns false. The entry says which check failed; a candidate whose nested
  parse failed is rejected with \<open>parsing error\<close> whatever the context is.
\<close>

theorem declaration_attached_iff:
  assumes "identify p = (Some node, p1)"
    and "parseLoop node endToken True p1 = (nested, node', p2)"
    and "nodeKind node = Declaration"
  shows "parseLoop this endToken result p =
     (if nested \<and> nodeKind this = Document \<and>
         list_all (\<lambda>ch. nodeKind ch = Declaration) (childNodes this)
      then parseLoop (reparentUnder node' this) endToken result p2
      else parseLoop this endToken False
             (deleteNode node'
               (errorAtLine (lineNumber node)
                 (if \<not> nested then ''parsing error''
                  else if nodeKind this \<noteq> Document
                    then ''misplaced declaration, not directly inside a document''
                  else ''misplaced declaration, must be at the beginning of the document'')
                 p2))) \<and>
     (fst (parseLoop this endToken result p) \<longrightarrow>
        nested \<and> nodeKind this = Document \<and>
        list_all (\<lambda>ch. nodeKind ch = Declaration) (childNodes this))"
proof -
  from parseLoop_keeps[OF assms(2)] assms(3)
  have k: "nodeKind node' = Declaration" "lineNumber node' = lineNumber node" by auto
  obtain thisOneOk p3 where c: "checkNode this node' nested p2 = (thisOneOk, p3)"
    by (cases "checkNode this node' nested p2") auto
  show ?thesis
    using parseLoop_step[OF assms(1,2) c, of result] c k
      parseLoop_False_fails[of this endToken]
    by (auto simp: checkNode_eq split: if_splits)
qed

text \<open>
  C2, an instance: the declaration \<^verbatim>\<open><?xml?>\<close> at the beginning of an empty document is
  attached, and the loop goes on with the document that holds it.
\<close>

theorem declaration_attached_iff_witness:
  "parseLoop emptyDocument [] True (start [Some declXml, None, Some openA]) =
     parseLoop (XNode Document [] 1 OPEN [declXml]) [] True (start [Some openA])"
  using declaration_attached_iff[of "start [Some declXml, None, Some openA]" declXml
      "start [None, Some openA]" "[]" True declXml "start [Some openA]" emptyDocument True]
  by (simp add: run_defs example_defs)

text \<open>
  C2 as first stated does not hold: the context is a Document with no child, the
  candidate is a Declaration, and it is not attached. Its nested parse failed (it met
  a declaration of its own), so it is reported as \<open>parsing error\<close> and destroyed.
\<close>

theorem declaration_in_document_not_attached:
  "nodeKind emptyDocument = Document \<and>
   list_all (\<lambda>ch. nodeKind ch = Declaration) (childNodes emptyDocument) \<and>
   nodeKind declXml = Declaration \<and>
   fst (identify (start [Some declXml, Some declStyle])) = Some declXml \<and>
   parseContinue emptyDocument [] (start [Some declXml, Some declStyle]) =
     (False, emptyDocument,
      \<lparr>script = [],
       errors = [(2, ''misplaced declaration, not directly inside a document''),
                 (1, ''parsing error'')],
       deleted = [declStyle, declXml]\<rparr>)"
  by (simp add: run_defs example_defs)

subsection \<open>The result of a parse\<close>

text \<open>
  C3. The top-level call of \<^verbatim>\<open>parseContinue\<close> returns true exactly when the parse added
  no entry to the diagnostics, the entries of the nested calls included: they go to the
  same sink.
\<close>

theorem parseContinue_true_iff_no_error:
  "fst (parseContinue this endToken p) \<longleftrightarrow>
     errors (snd (snd (parseContinue this endToken p))) = errors p"
proof -
  obtain ok this' p' where r: "parseLoop this endToken True p = (ok, this', p')"
    by (cases "parseLoop this endToken True p") auto
  from parseLoop_errors[OF r] show ?thesis
    by (auto simp: parseContinue_def r)
qed

subsection \<open>Several errors\<close>

text \<open>
  C4 (the code departs from the specification). The specification has an input with two
  independent structural errors report two diagnostic entries, and a closing tag that
  does not match the open element is such an error. The candidates of \<^verbatim>\<open><a></c>\<close> and
  then \<^verbatim>\<open><b></d>\<close> hold two of them: the parse returns true, reports no entry at all and
  attaches the closing candidates. The defect is the one of C1: in \<^verbatim>\<open>parseContinue\<close> the
  block for elements is commented out, so no closing tag is ever checked.
\<close>

theorem mismatched_closing_tags_not_reported:
  "parseContinue emptyDocument []
     (start [Some openA, Some closeC, None, None, Some openB, Some closeD, None, None]) =
     (True,
      XNode Document [] 1 OPEN
        [XNode Element ''a'' 1 OPEN [XNode Element ''c'' 1 CLOSING []],
         XNode Element ''b'' 1 OPEN [XNode Element ''d'' 1 CLOSING []]],
      \<lparr>script = [], errors = [], deleted = []\<rparr>)"
  by (simp add: run_defs example_defs)

text \<open>
  For the errors that \<^verbatim>\<open>parseContinue\<close> does check, a rejection does not stop the loop.
  When the checks reject a candidate (its nested parse failed, or it is a misplaced
  declaration), exactly one entry is reported for it, at its line, the candidate is
  destroyed and the result is false; and the loop goes on: it reads the tokens that
  follow up to the end of its run, and it builds the tree, reports the entries and
  destroys the candidates that a parse of these tokens alone does in the same context.
  So the diagnostics after the call are the former ones, the entry of the rejected
  candidate, and every entry of the rest of the input: two rejected candidates give two
  entries. Each entry of the rest belongs to a candidate that is destroyed, in order.
\<close>

theorem rejection_does_not_stop_the_loop:
  assumes "identify p = (Some node, p1)"
    and "parseLoop node endToken True p1 = (nested, node', p2)"
    and "checkNode this node' nested p2 = (False, p3)"
  shows "\<exists>msg. p3 = errorAtLine (lineNumber node) msg p2 \<and>
     parseLoop this endToken result p =
       (False, built this (script p2),
        \<lparr>script = snd (yielded (script p2)),
         errors = errors p2 @ (lineNumber node, msg) # reported this (script p2),
         deleted = deleted p2 @ node' # discarded this (script p2)\<rparr>) \<and>
     map fst (reported this (script p2)) = map lineNumber (discarded this (script p2))"
proof -
  from parseLoop_keeps[OF assms(2)] have ln: "lineNumber node' = lineNumber node" by simp
  from checkNode_cases[OF assms(3)] ln obtain msg where
    p3: "p3 = errorAtLine (lineNumber node) msg p2" by auto
  have q: "deleteNode node' p3 =
      \<lparr>script = script p2, errors = errors p2 @ [(lineNumber node, msg)],
       deleted = deleted p2 @ [node']\<rparr>"
    unfolding p3 by (simp add: deleteNode_def errorAtLine_def)
  have "parseLoop this endToken result p = parseLoop this endToken False (deleteNode node' p3)"
    using parseLoop_step[OF assms, of result] by simp
  also have "\<dots> = (False, built this (script p2),
        \<lparr>script = snd (yielded (script p2)),
         errors = errors p2 @ (lineNumber node, msg) # reported this (script p2),
         deleted = deleted p2 @ node' # discarded this (script p2)\<rparr>)"
    unfolding q parseLoop_from by simp
  finally show ?thesis using p3 reported_discarded by blast
qed

text \<open>
  An instance: two misplaced declarations under an element, with a well-placed element
  between them, give two entries, and the element is attached.
\<close>

theorem rejection_does_not_stop_the_loop_witness:
  "parseContinue openA [] (start [Some declXml, None, Some openB, None, Some declStyle]) =
     (False, XNode Element ''a'' 1 OPEN [openB],
      \<lparr>script = [],
       errors = [(1, ''misplaced declaration, not directly inside a document''),
                 (2, ''misplaced declaration, not directly inside a document'')],
       deleted = [declXml, declStyle]\<rparr>)"
  using rejection_does_not_stop_the_loop[of "start [Some declXml, None, Some openB, None, Some declStyle]"
      declXml "start [None, Some openB, None, Some declStyle]" "[]" True declXml
      "start [Some openB, None, Some declStyle]" openA
      "errorAtLine 1 ''misplaced declaration, not directly inside a document''
         (start [Some openB, None, Some declStyle])" True]
  by (simp add: run_defs example_defs reported_def discarded_def built_def)

subsection \<open>The order of the children\<close>




subsection \<open>The ring of the children\<close>



subsection \<open>Reparenting twice\<close>

text \<open>
  C7. For every node, every parent reference (null included) and every store,
  \<^verbatim>\<open>reparent\<close> twice in a row gives the same store as \<^verbatim>\<open>reparent\<close> once, and \<^verbatim>\<open>reparent\<close>
  to the current parent changes nothing.
\<close>

theorem reparent_idempotent:
  "(reparent n p h \<bind> reparent n p) = reparent n p h \<and>
   (map_option m_parent (h n) = Some p \<longrightarrow> reparent n p h = Some h)"
proof
  show "(reparent n p h \<bind> reparent n p) = reparent n p h"
  proof (cases "reparent n p h")
    case None
    then show ?thesis by simp
  next
    case (Some h')
    from reparent_same[of h' n p] reparent_sets_parent[OF Some] Some show ?thesis by simp
  qed
  show "map_option m_parent (h n) = Some p \<longrightarrow> reparent n p h = Some h"
    using reparent_same by blast
qed

text \<open>
  C7, two instances: node 13 attached twice to node 10, and node 11 attached to the
  parent it has.
\<close>

theorem reparent_idempotent_witness:
  "(reparent 13 (Some 10) twoChildren \<bind> reparent 13 (Some 10)) = reparent 13 (Some 10) twoChildren \<and>
   reparent 11 (Some 10) twoChildren = Some twoChildren"
proof -
  have "map_option m_parent (twoChildren 11) = Some (Some 10)"
    by (simp add: twoChildren_def fresh_def)
  with reparent_idempotent[of 11 "Some 10" twoChildren] reparent_idempotent[of 13 "Some 10" twoChildren]
  show ?thesis by blast
qed

subsection \<open>Clearing a node\<close>




subsection \<open>A successful parse\<close>



subsection \<open>A declaration outside a document\<close>

text \<open>
  C10 (amended). For a Declaration candidate whose own nested parse succeeded, met
  while the context is not a Document, the checks report exactly one entry, \<open>misplaced
  declaration, not directly inside a document\<close>, at the line of the candidate: the loop
  over the children already attached is skipped. The candidate is destroyed and the
  loop goes on with the result false.
\<close>

theorem misplaced_declaration_one_entry:
  assumes "identify p = (Some node, p1)"
    and "parseLoop node endToken True p1 = (True, node', p2)"
    and "nodeKind node = Declaration"
    and "nodeKind this \<noteq> Document"
  shows "checkNode this node' True p2 =
           (False, p2\<lparr>errors := errors p2 @
              [(lineNumber node, ''misplaced declaration, not directly inside a document'')]\<rparr>) \<and>
         parseLoop this endToken result p =
           parseLoop this endToken False
             (deleteNode node' (p2\<lparr>errors := errors p2 @
                [(lineNumber node, ''misplaced declaration, not directly inside a document'')]\<rparr>))"
proof -
  from parseLoop_keeps[OF assms(2)] assms(3)
  have k: "nodeKind node' = Declaration" "lineNumber node' = lineNumber node" by auto
  have c: "checkNode this node' True p2 =
           (False, p2\<lparr>errors := errors p2 @
              [(lineNumber node, ''misplaced declaration, not directly inside a document'')]\<rparr>)"
    using k assms(4) by (simp add: checkNode_eq errorAtLine_def)
  show ?thesis
    using parseLoop_step[OF assms(1,2) c, of result] c by simp
qed

text \<open>
  C10, an instance: a declaration under an element that has a child which is not a
  declaration; only the first of the two messages is reported.
\<close>

theorem misplaced_declaration_one_entry_witness:
  "parseContinue (XNode Element ''a'' 1 OPEN [openB]) [] (start [Some declStyle]) =
     (False, XNode Element ''a'' 1 OPEN [openB],
      \<lparr>script = [],
       errors = [(2, ''misplaced declaration, not directly inside a document'')],
       deleted = [declStyle]\<rparr>)"
  using misplaced_declaration_one_entry[of "start [Some declStyle]" declStyle "start []" "[]"
      declStyle "start []" "XNode Element ''a'' 1 OPEN [openB]" True]
  by (simp add: run_defs example_defs)

text \<open>
  C10 as first stated does not hold for every Declaration candidate: under the element
  \<open>a\<close>, the declaration of line 1 meets a declaration of its own (line 2), so its nested
  parse fails and the entry for it is \<open>parsing error\<close>, not \<open>not directly inside a
  document\<close>.
\<close>

theorem nested_failure_reports_parsing_error:
  "nodeKind openA \<noteq> Document \<and> nodeKind declXml = Declaration \<and> lineNumber declXml = 1 \<and>
   fst (identify (start [Some declXml, Some declStyle])) = Some declXml \<and>
   parseContinue openA [] (start [Some declXml, Some declStyle]) =
     (False, openA,
      \<lparr>script = [],
       errors = [(2, ''misplaced declaration, not directly inside a document''),
                 (1, ''parsing error'')],
       deleted = [declStyle, declXml]\<rparr>)"
  by (simp add: run_defs example_defs)

end
